theory Spec2Isabelle
  imports Main "HOL-Library.Multiset" "HOL-Library.List_Lexorder"
begin

section \<open>Errors and objects\<close>

text \<open>
  The library works on Python's unbounded integers and on Python sets of comparable
  items. The size \<open>k\<close> and the rank passed to the codecs over a universal set are
  modelled as \<open>nat\<close>: the model covers the calls with a non-negative size and rank, the
  domain the library is specified for. Lengths, list positions and the counters of
  \<open>range\<close> loops are \<open>nat\<close> as well. Where the source computes a difference that can become
  negative (the arguments of \<open>math.comb\<close> in the multi-combination and composition
  codecs, the arguments of \<open>part\<close>), the model uses \<open>int\<close>. A Python set is a finite
  \<open>'a set\<close> over a linear order; \<open>sorted(list(s))\<close> is \<open>sorted_list_of_set s\<close> and \<open>len(s)\<close>
  is \<open>card s\<close>. Every exception the modelled code can raise is a value of \<open>error\<close>.
\<close>

datatype error = ValueError | NotImplementedError

text \<open>The two subclasses of the abstract class \<open>Combinatoric\<close>.\<close>

datatype kind = CombinationK | PermutationK

text \<open>The payload \<open>_combinatoric\<close>: a set (Combination) or a tuple (Permutation).\<close>

datatype 'a payload = SetP "'a set" | TupleP "'a list"

fun items :: "'a payload \<Rightarrow> 'a set" where
  "items (SetP s) = s"
| "items (TupleP t) = set t"

fun len :: "'a payload \<Rightarrow> nat" where
  "len (SetP s) = card s"
| "len (TupleP t) = length t"

record 'a Combinatoric =
  cls :: kind
  universal_set :: "'a set"
  combinatoric :: "'a payload"

text \<open>\<open>Combinatoric.__init__\<close>: every item of the payload must be in the universal set.\<close>

definition Combinatoric_init :: "kind \<Rightarrow> 'a set \<Rightarrow> 'a payload \<Rightarrow> error + 'a Combinatoric" where
  "Combinatoric_init c U p =
     (if \<exists>x \<in> items p. x \<notin> U then Inl ValueError
      else Inr \<lparr>cls = c, universal_set = U, combinatoric = p\<rparr>)"

definition Combination :: "'a set \<Rightarrow> 'a set \<Rightarrow> error + 'a Combinatoric" where
  "Combination U combination = Combinatoric_init CombinationK U (SetP combination)"

definition Permutation :: "'a set \<Rightarrow> 'a list \<Rightarrow> error + 'a Combinatoric" where
  "Permutation U permutation = Combinatoric_init PermutationK U (TupleP permutation)"

section \<open>Combination codec\<close>

text \<open>\<open>list.index\<close>: the first position of an item, \<open>None\<close> where Python raises ValueError.\<close>

fun index_of :: "'a list \<Rightarrow> 'a \<Rightarrow> nat option" where
  "index_of [] y = None"
| "index_of (x # xs) y = (if x = y then Some 0 else map_option Suc (index_of xs y))"

text \<open>
  The inner loop of \<open>unrank_combination\<close>, \<open>for index in range(len(sliced_universal_set))\<close>,
  run from \<open>index\<close> with the running \<open>index_rank\<close>; \<open>kk\<close> is \<open>k - (i + 1)\<close>. It returns
  \<open>(index, index_rank, combs)\<close> at the \<open>break\<close>, and \<open>None\<close> when the loop ends without one.
\<close>

function unrank_combination_inner ::
  "'a list \<Rightarrow> nat \<Rightarrow> nat \<Rightarrow> nat \<Rightarrow> nat \<Rightarrow> (nat \<times> nat \<times> nat) option" where
  "unrank_combination_inner sliced kk rank index index_rank =
     (if index < length sliced then
        (let combs = length (drop (index + 1) sliced) choose kk;
             index_rank' = index_rank + combs
         in if index_rank' > rank then Some (index, index_rank', combs)
            else unrank_combination_inner sliced kk rank (index + 1) index_rank')
      else None)"
  by pat_completeness auto
termination
  by (relation "measure (\<lambda>(sliced, kk, rank, index, index_rank). length sliced - index)") auto

declare unrank_combination_inner.simps [simp del]

text \<open>
  The outer loop \<open>for i in range(k)\<close>, from iteration \<open>i\<close>, threading the sliced universal
  set, the remaining rank and the combination built so far. The subtraction
  \<open>rank -= (index_rank - combs)\<close> never goes below zero: \<open>index_rank - combs\<close> is the
  running sum before the last step, which did not exceed \<open>rank\<close>.
\<close>

function unrank_combination_loop ::
  "nat \<Rightarrow> nat \<Rightarrow> 'a list \<Rightarrow> nat \<Rightarrow> 'a set \<Rightarrow> 'a set" where
  "unrank_combination_loop k i sliced rank combination =
     (if i < k then
        (case unrank_combination_inner sliced (k - (i + 1)) rank 0 0 of
           None \<Rightarrow> unrank_combination_loop k (i + 1) sliced rank combination
         | Some (index, index_rank, combs) \<Rightarrow>
             unrank_combination_loop k (i + 1) (drop (index + 1) sliced)
               (rank - (index_rank - combs)) (insert (sliced ! index) combination))
      else combination)"
  by pat_completeness auto
termination
  by (relation "measure (\<lambda>(k, i, sliced, rank, combination). k - i)") auto

declare unrank_combination_loop.simps [simp del]

text \<open>
  \<open>unrank_combination\<close>: \<open>Inr None\<close> is Python's \<open>None\<close>; the constructor of the result
  can raise.
\<close>

definition unrank_combination ::
  "'a::linorder set \<Rightarrow> nat \<Rightarrow> nat \<Rightarrow> error + 'a Combinatoric option" where
  "unrank_combination U k rank =
     (if rank \<ge> card U choose k then Inr None
      else map_sum id Some
        (Combination U (unrank_combination_loop k 0 (sorted_list_of_set U) rank {})))"

text \<open>
  The loop of \<open>rank_combination\<close> over \<open>enumerate(sorted(list(combination)))\<close>;
  \<open>n\<close> is \<open>len(combination)\<close>.
\<close>

fun rank_combination_loop :: "'a list \<Rightarrow> nat \<Rightarrow> nat \<Rightarrow> 'a list \<Rightarrow> nat \<Rightarrow> error + nat" where
  "rank_combination_loop U n i [] rank = Inr rank"
| "rank_combination_loop U n i (item # rest) rank =
     (case index_of U item of
        None \<Rightarrow> Inl ValueError
      | Some index \<Rightarrow>
          rank_combination_loop (drop (index + 1) U) n (i + 1) rest
            (rank + (\<Sum>rank_index \<leftarrow> [0..<index].
                       length (drop (rank_index + 1) U) choose (n - (i + 1)))))"

definition rank_combination :: "'a::linorder set \<Rightarrow> 'a set \<Rightarrow> error + nat" where
  "rank_combination U combination =
     rank_combination_loop (sorted_list_of_set U) (card combination) 0
       (sorted_list_of_set combination) 0"

text \<open>
  The method \<open>rank\<close> of the two subclasses. \<open>Permutation.rank\<close> calls
  \<open>rank_combination(tuple(self._universal_set), frozenset(self._combinatoric))\<close>; the tuple
  is sorted again inside \<open>rank_combination\<close>, so its order does not matter.
\<close>

definition Combination_rank :: "'a::linorder Combinatoric \<Rightarrow> error + nat" where
  "Combination_rank self = rank_combination (universal_set self) (items (combinatoric self))"

definition Permutation_rank :: "'a::linorder Combinatoric \<Rightarrow> error + nat" where
  "Permutation_rank self = rank_combination (universal_set self) (items (combinatoric self))"

definition Combinatoric_rank :: "'a::linorder Combinatoric \<Rightarrow> error + nat" where
  "Combinatoric_rank self =
     (case cls self of CombinationK \<Rightarrow> Combination_rank self
                     | PermutationK \<Rightarrow> Permutation_rank self)"

text \<open>\<open>Combinatoric.successor\<close>, inherited unchanged by both subclasses.\<close>

definition Combinatoric_successor :: "'a::linorder Combinatoric \<Rightarrow> error + 'a Combinatoric option" where
  "Combinatoric_successor self =
     (case Combinatoric_rank self of
        Inl e \<Rightarrow> Inl e
      | Inr r \<Rightarrow> unrank_combination (universal_set self) (len (combinatoric self)) (r + 1))"

section \<open>Comparisons\<close>

text \<open>
  The decorator \<open>ensure_comparable\<close>. The first test, \<open>isinstance(other, self.__class__)\<close>,
  compares the classes, as neither subclass derives from the other.
\<close>

definition ensure_comparable ::
  "('a Combinatoric \<Rightarrow> 'a Combinatoric \<Rightarrow> error + bool) \<Rightarrow>
   'a Combinatoric \<Rightarrow> 'a Combinatoric \<Rightarrow> error + bool" where
  "ensure_comparable comparison_function self other =
     (if cls other \<noteq> cls self then Inl NotImplementedError
      else if universal_set self \<noteq> universal_set other then Inl NotImplementedError
      else if len (combinatoric self) \<noteq> len (combinatoric other) then Inl NotImplementedError
      else comparison_function self other)"

definition Combinatoric_eq :: "'a::linorder Combinatoric \<Rightarrow> 'a Combinatoric \<Rightarrow> error + bool" where
  "Combinatoric_eq =
     ensure_comparable (\<lambda>self other.
       case Combinatoric_rank self of Inl e \<Rightarrow> Inl e
       | Inr r \<Rightarrow> (case Combinatoric_rank other of Inl e \<Rightarrow> Inl e | Inr r' \<Rightarrow> Inr (r = r')))"

definition Combinatoric_lt :: "'a::linorder Combinatoric \<Rightarrow> 'a Combinatoric \<Rightarrow> error + bool" where
  "Combinatoric_lt =
     ensure_comparable (\<lambda>self other.
       case Combinatoric_rank self of Inl e \<Rightarrow> Inl e
       | Inr r \<Rightarrow> (case Combinatoric_rank other of Inl e \<Rightarrow> Inl e | Inr r' \<Rightarrow> Inr (r < r')))"

text \<open>
  \<open>__gt__\<close> is not written in the source: the class decorator \<open>functools.total_ordering\<close>
  derives it from \<open>__lt__\<close> as \<open>not (self < other) and self != other\<close>, where \<open>!=\<close> is the
  negation of \<open>__eq__\<close>; an exception raised by either propagates.
\<close>

definition Combinatoric_gt :: "'a::linorder Combinatoric \<Rightarrow> 'a Combinatoric \<Rightarrow> error + bool" where
  "Combinatoric_gt self other =
     (case Combinatoric_lt self other of
        Inl e \<Rightarrow> Inl e
      | Inr op_result \<Rightarrow>
          if op_result then Inr False
          else (case Combinatoric_eq self other of Inl e \<Rightarrow> Inl e | Inr b \<Rightarrow> Inr (\<not> b)))"

section \<open>Combination iterator\<close>

text \<open>
  The state of a \<open>CombinationIterator\<close> is its attribute \<open>_combination\<close>. \<open>__next__\<close> either
  raises \<open>StopIteration\<close> or returns the current object, leaving the successor as the new
  state. A \<open>Combination\<close> object defines neither \<open>__bool__\<close> nor \<open>__len__\<close>, so the test
  \<open>if current\<close> is a test for \<open>None\<close>.
\<close>

definition CombinationIterator :: "'a::linorder set \<Rightarrow> nat \<Rightarrow> nat \<Rightarrow> error + 'a Combinatoric option" where
  "CombinationIterator U k initial_index = unrank_combination U k initial_index"

datatype 'a next_result = StopIteration | Next "'a Combinatoric" "'a Combinatoric option"

definition CombinationIterator_next :: "'a::linorder Combinatoric option \<Rightarrow> error + 'a next_result" where
  "CombinationIterator_next st =
     (case st of
        None \<Rightarrow> Inr StopIteration
      | Some current \<Rightarrow>
          (case Combinatoric_successor current of
             Inl e \<Rightarrow> Inl e
           | Inr s \<Rightarrow> Inr (Next current s)))"

text \<open>
  Iterating to exhaustion (\<open>list(iterator)\<close>): call \<open>__next__\<close> until it raises
  \<open>StopIteration\<close>. The loop has no bound of its own, so it is a partial function;
  \<open>None\<close> stands for a loop that never ends.
\<close>

partial_function (option) exhaust ::
  "'a::linorder Combinatoric option \<Rightarrow> (error + 'a Combinatoric list) option" where
  "exhaust st =
     (case CombinationIterator_next st of
        Inl e \<Rightarrow> Some (Inl e)
      | Inr StopIteration \<Rightarrow> Some (Inr [])
      | Inr (Next current st') \<Rightarrow>
          Option.bind (exhaust st') (\<lambda>r. Some (map_sum id ((#) current) r)))"

declare exhaust.simps [code]

definition CombinationIterator_list ::
  "'a::linorder set \<Rightarrow> nat \<Rightarrow> nat \<Rightarrow> (error + 'a Combinatoric list) option" where
  "CombinationIterator_list U k initial_index =
     (case CombinationIterator U k initial_index of
        Inl e \<Rightarrow> Some (Inl e)
      | Inr st \<Rightarrow> exhaust st)"

section \<open>Restricted partition counter\<close>

text \<open>\<open>part(n, k, l)\<close> on Python's integers.\<close>

function part :: "int \<Rightarrow> int \<Rightarrow> int \<Rightarrow> int" where
  "part n k l =
     (if n < k \<or> k \<le> 0 then 0
      else if k = n \<or> k = 1 then 1
      else part (n - l) (k - 1) l + part (n - l * k) k 1)"
  by pat_completeness auto
termination
  by (relation "measures [\<lambda>(n, k, l). if 1 \<le> l then 0 else 1,
                          \<lambda>(n, k, l). if 1 \<le> l then nat n else nat k]") auto

declare part.simps [simp del]

text \<open>
  The quantity the specification names, in its words: the ways to write \<open>n\<close> as an
  unordered sum (a multiset) of exactly \<open>k\<close> positive parts, each at least \<open>l\<close>.
\<close>

definition partitions :: "int \<Rightarrow> int \<Rightarrow> int \<Rightarrow> int multiset set" where
  "partitions n k l = {M. int (size M) = k \<and> (\<forall>x \<in># M. 0 < x \<and> l \<le> x) \<and> sum_mset M = n}"

section \<open>\<open>math.comb\<close> on integers\<close>

text \<open>\<open>math.comb(n, k)\<close> raises ValueError on a negative argument.\<close>

definition comb :: "int \<Rightarrow> int \<Rightarrow> error + int" where
  "comb n k = (if n < 0 \<or> k < 0 then Inl ValueError else Inr (int (nat n choose nat k)))"

section \<open>Sized integer composition codec\<close>

record SizedIntegerComposition =
  sic_composition :: "int list"
  sic_sum :: int

definition SizedIntegerComposition_init :: "int list \<Rightarrow> SizedIntegerComposition" where
  "SizedIntegerComposition_init c = \<lparr>sic_composition = c, sic_sum = sum_list c\<rparr>"

text \<open>
  The inner loop \<open>for j in range(1, n - 1)\<close> of \<open>unrank_sized_integer_composition\<close> over the
  remaining values of \<open>j\<close>; it returns the new \<open>index\<close> and \<open>composition\<close>.
\<close>

fun unrank_composition_inner ::
  "int \<Rightarrow> int \<Rightarrow> int \<Rightarrow> int list \<Rightarrow> int \<Rightarrow> int \<Rightarrow> int list \<Rightarrow> error + (int \<times> int list)" where
  "unrank_composition_inner n k i composition index offset [] = Inr (index, composition)"
| "unrank_composition_inner n k i composition index offset (j # js) =
     (case comb (n - (sum_list composition + j) - 1) (k - i - 2) of
        Inl e \<Rightarrow> Inl e
      | Inr c \<Rightarrow>
          if offset + c > index then Inr (index - offset, composition @ [j])
          else unrank_composition_inner n k i composition index (offset + c) js)"

text \<open>The outer loop \<open>for i in range(k - 1)\<close> over the remaining values of \<open>i\<close>.\<close>

fun unrank_composition_loop ::
  "int \<Rightarrow> int \<Rightarrow> int list \<Rightarrow> int \<Rightarrow> int list \<Rightarrow> error + int list" where
  "unrank_composition_loop n k composition index [] = Inr composition"
| "unrank_composition_loop n k composition index (i # later) =
     (case unrank_composition_inner n k i composition index 0 [1..n - 2] of
        Inl e \<Rightarrow> Inl e
      | Inr (index', composition') \<Rightarrow> unrank_composition_loop n k composition' index' later)"

definition unrank_sized_integer_composition ::
  "int \<Rightarrow> int \<Rightarrow> int \<Rightarrow> error + SizedIntegerComposition option" where
  "unrank_sized_integer_composition n k index =
     (case comb (n - 1) (k - 1) of
        Inl e \<Rightarrow> Inl e
      | Inr c \<Rightarrow>
          if index \<ge> c then Inr None
          else (case unrank_composition_loop n k [] index [0..k - 2] of
                  Inl e \<Rightarrow> Inl e
                | Inr composition \<Rightarrow>
                    Inr (Some (SizedIntegerComposition_init
                                 (composition @ [n - sum_list composition])))))"

section \<open>Multi-combination codec\<close>

record 'a MultiCombination =
  mc_universal_set :: "'a list"
  mc_multicombination :: "'a list"

definition MultiCombination_init :: "'a::linorder set \<Rightarrow> 'a list \<Rightarrow> error + 'a MultiCombination" where
  "MultiCombination_init U multicombination =
     (if \<exists>c \<in> set multicombination. c \<notin> U then Inl ValueError
      else Inr \<lparr>mc_universal_set = sorted_list_of_set U, mc_multicombination = multicombination\<rparr>)"

text \<open>
  The class \<open>MultiCombination\<close> (like \<open>Multipermutation\<close>) derives from no class, carries
  no \<open>ensure_comparable\<close> and defines neither \<open>__eq__\<close> nor \<open>__lt__\<close>. \<open>a == b\<close> on two of
  its objects is therefore the comparison every Python class inherits from \<open>object\<close>:
  it answers whether \<open>a\<close> and \<open>b\<close> are the same object, looks at no attribute and never
  raises. An object in memory is its identity \<open>id(self)\<close> together with its attributes.
\<close>

record 'a MultiCombination_object =
  object_id :: nat
  attributes :: "'a MultiCombination"

definition MultiCombination_eq ::
  "'a MultiCombination_object \<Rightarrow> 'a MultiCombination_object \<Rightarrow> error + bool" where
  "MultiCombination_eq self other = Inr (object_id self = object_id other)"

text \<open>
  The two nested loops of \<open>unrank_multicombination\<close>: nothing but the appended list
  changes, and no iteration breaks. Inside them the universal set is not empty and
  \<open>k \<ge> 1\<close>, so both arguments of \<open>comb\<close> are natural numbers. \<open>sorted_set[index - 1]\<close> at
  \<open>index = 0\<close> is Python's last element.
\<close>

definition unrank_multicombination_loop :: "'a list \<Rightarrow> nat \<Rightarrow> nat \<Rightarrow> 'a list" where
  "unrank_multicombination_loop sorted_set k rank =
     concat (map (\<lambda>i. concat (map (\<lambda>index.
         if index * (((length sorted_set + k - 1) - 1) choose (k - (i + 1))) > rank
         then [if index = 0 then last sorted_set else sorted_set ! (index - 1)]
         else [])
       [0..<length sorted_set])) [0..<k])"

definition unrank_multicombination ::
  "'a::linorder set \<Rightarrow> nat \<Rightarrow> nat \<Rightarrow> error + 'a MultiCombination option" where
  "unrank_multicombination U k rank =
     (case comb (int (card U) + int k - 1) (int k) of
        Inl e \<Rightarrow> Inl e
      | Inr c \<Rightarrow>
          if int rank > c then Inr None
          else map_sum id Some
            (MultiCombination_init (set (sorted_list_of_set U))
               (unrank_multicombination_loop (sorted_list_of_set U) k rank)))"

section \<open>Properties of the combination codec\<close>

lemma index_of_nth: "distinct xs \<Longrightarrow> i < length xs \<Longrightarrow> index_of xs (xs ! i) = Some i"
proof (induction xs arbitrary: i)
  case Nil
  then show ?case by simp
next
  case (Cons x xs)
  show ?case
  proof (cases i)
    case 0
    then show ?thesis by simp
  next
    case (Suc j)
    with Cons.prems have "xs ! j \<in> set xs" "x \<notin> set xs" by auto
    then have "x \<noteq> xs ! j" by auto
    with Cons Suc show ?thesis by simp
  qed
qed

lemma hockey_stick: "(\<Sum>j \<leftarrow> [0..<n]. (n - (j + 1)) choose kk) = n choose (kk + 1)"
proof (induction n)
  case 0
  then show ?case by simp
next
  case (Suc n)
  have "(\<Sum>j \<leftarrow> [0..<Suc n]. (Suc n - (j + 1)) choose kk)
        = (n choose kk) + (\<Sum>j \<leftarrow> [Suc 0..<Suc n]. (Suc n - (j + 1)) choose kk)"
    by (simp add: upt_conv_Cons del: upt_Suc)
  also have "(\<Sum>j \<leftarrow> [Suc 0..<Suc n]. (Suc n - (j + 1)) choose kk)
             = (\<Sum>j \<leftarrow> [0..<n]. (n - (j + 1)) choose kk)"
    by (simp add: map_Suc_upt [symmetric] comp_def del: upt_Suc)
  finally show ?case using Suc.IH by simp
qed

lemma inner_result:
  "unrank_combination_inner sliced kk rank index index_rank = Some (idx, ir, c) \<Longrightarrow>
   index_rank \<le> rank \<Longrightarrow>
   index \<le> idx \<and> idx < length sliced \<and> c = length (drop (idx + 1) sliced) choose kk \<and>
   ir = index_rank + (\<Sum>j \<leftarrow> [index..<idx + 1]. length (drop (j + 1) sliced) choose kk) \<and>
   rank < ir \<and> ir - c \<le> rank"
proof (induction sliced kk rank index index_rank rule: unrank_combination_inner.induct)
  case (1 sliced kk rank index index_rank)
  show ?case
  proof (cases "index < length sliced")
    case False
    with "1.prems" show ?thesis by (simp add: unrank_combination_inner.simps)
  next
    case True
    define combs where "combs = length (drop (index + 1) sliced) choose kk"
    show ?thesis
    proof (cases "index_rank + combs > rank")
      case hit: True
      with True "1.prems" combs_def have "idx = index" "ir = index_rank + combs" "c = combs"
        by (auto simp add: unrank_combination_inner.simps [of sliced kk rank index] Let_def)
      with hit True "1.prems" combs_def show ?thesis by simp
    next
      case miss: False
      with True "1.prems" combs_def
      have rec: "unrank_combination_inner sliced kk rank (index + 1) (index_rank + combs) = Some (idx, ir, c)"
        by (simp add: unrank_combination_inner.simps [of sliced kk rank index] Let_def)
      from miss have le: "index_rank + combs \<le> rank" by simp
      note ih = "1.IH" [OF True combs_def refl miss rec le]
      then have "index < idx + 1" by simp
      then have "[index..<idx + 1] = index # [index + 1..<idx + 1]"
        by (simp add: upt_conv_Cons del: upt_Suc)
      with ih combs_def show ?thesis by (auto simp del: upt_Suc)
    qed
  qed
qed

lemma inner_exists:
  "index_rank \<le> rank \<Longrightarrow>
   rank < index_rank + (\<Sum>j \<leftarrow> [index..<length sliced]. length (drop (j + 1) sliced) choose kk) \<Longrightarrow>
   \<exists>idx ir c. unrank_combination_inner sliced kk rank index index_rank = Some (idx, ir, c)"
proof (induction sliced kk rank index index_rank rule: unrank_combination_inner.induct)
  case (1 sliced kk rank index index_rank)
  show ?case
  proof (cases "index < length sliced")
    case False
    with "1.prems" show ?thesis by simp
  next
    case True
    define combs where "combs = length (drop (index + 1) sliced) choose kk"
    from True have split: "[index..<length sliced] = index # [index + 1..<length sliced]"
      by (simp add: upt_conv_Cons)
    show ?thesis
    proof (cases "index_rank + combs > rank")
      case hit: True
      with True combs_def show ?thesis
        by (simp add: unrank_combination_inner.simps [of sliced kk rank index] Let_def)
    next
      case miss: False
      then have le: "index_rank + combs \<le> rank" by simp
      from "1.prems"(2) split combs_def
      have "rank < index_rank + combs + (\<Sum>j \<leftarrow> [index + 1..<length sliced]. length (drop (j + 1) sliced) choose kk)"
        by simp
      from "1.IH" [OF True combs_def refl miss le this]
      obtain idx ir c where "unrank_combination_inner sliced kk rank (index + 1) (index_rank + combs) = Some (idx, ir, c)"
        by auto
      with True miss combs_def show ?thesis
        by (auto simp add: unrank_combination_inner.simps [of sliced kk rank index] Let_def)
    qed
  qed
qed


lemma nth_less_drop:
  assumes "sorted xs" "distinct xs" "idx < length xs" "y \<in> set (drop (Suc idx) xs)"
  shows "xs ! idx < y"
proof -
  from assms(4) obtain j where j: "j < length (drop (Suc idx) xs)" "y = drop (Suc idx) xs ! j"
    by (auto simp: in_set_conv_nth)
  then have y: "y = xs ! (Suc idx + j)" and lt: "Suc idx + j < length xs" by auto
  from assms(1,2) have "sorted_wrt (<) xs" by (simp add: strict_sorted_iff)
  from sorted_wrt_nth_less [OF this _ lt, of idx] y show ?thesis by simp
qed

lemma unrank_loop_rank_loop:
  assumes "sorted sliced" "distinct sliced" "i \<le> k" "rank < length sliced choose (k - i)"
  shows "\<exists>picked. unrank_combination_loop k i sliced rank acc = acc \<union> set picked \<and>
           sorted picked \<and> distinct picked \<and> set picked \<subseteq> set sliced \<and> length picked = k - i \<and>
           (\<forall>r0. rank_combination_loop sliced k i picked r0 = Inr (r0 + rank))"
  using assms
proof (induction "k - i" arbitrary: i sliced rank acc)
  case 0
  then have "i = k" "rank = 0" by auto
  then show ?case
    by (auto simp: unrank_combination_loop.simps [of k k] intro!: exI [of _ "[]"])
next
  case (Suc d)
  then have ik: "i < k" and kk: "k - (i + 1) = d" by auto
  from Suc.prems(4) Suc.hyps(2) have "rank < length sliced choose (d + 1)" by simp
  then have "rank < 0 + (\<Sum>j \<leftarrow> [0..<length sliced]. length (drop (j + 1) sliced) choose d)"
    using hockey_stick [of "length sliced" d] by simp
  from inner_exists [OF _ this] obtain idx ir c
    where inner: "unrank_combination_inner sliced d rank 0 0 = Some (idx, ir, c)" by auto
  define T where "T = (\<Sum>j \<leftarrow> [0..<idx]. length (drop (j + 1) sliced) choose d)"
  from inner_result [OF inner] have idx: "idx < length sliced"
    and c: "c = length (drop (idx + 1) sliced) choose d"
    and ir: "ir = T + c" and hi: "rank < ir" and lo: "ir - c \<le> rank"
    by (auto simp add: T_def)
  define rank' where "rank' = rank - (ir - c)"
  define x where "x = sliced ! idx"
  define rest where "rest = drop (idx + 1) sliced"
  have r': "rank = T + rank'" "rank' < length rest choose (k - (i + 1))"
    using ir hi lo c kk by (simp_all add: rank'_def rest_def)
  have srt: "sorted rest" "distinct rest"
    using Suc.prems(1,2) by (simp_all add: rest_def sorted_wrt_drop)
  have "d = k - (i + 1)" using kk by simp
  from Suc.hyps(1) [OF this srt _ r'(2), of "insert x acc"] ik
  obtain picked where p: "unrank_combination_loop k (i + 1) rest rank' (insert x acc) = insert x acc \<union> set picked"
    "sorted picked" "distinct picked" "set picked \<subseteq> set rest" "length picked = k - (i + 1)"
    "\<And>r0. rank_combination_loop rest k (i + 1) picked r0 = Inr (r0 + rank')"
    by auto
  have lt: "\<And>y. y \<in> set picked \<Longrightarrow> x < y"
    using p(4) nth_less_drop [OF Suc.prems(1,2) idx] by (auto simp: x_def rest_def)
  have "set rest \<subseteq> set sliced" by (auto simp: rest_def dest: in_set_dropD)
  moreover have "x \<in> set sliced" using idx by (simp add: x_def)
  moreover have "unrank_combination_loop k i sliced rank acc = acc \<union> set (x # picked)"
    using ik inner p(1) kk
    by (simp add: unrank_combination_loop.simps [of k i] x_def rest_def rank'_def)
  moreover have "sorted (x # picked)" "distinct (x # picked)"
    using p(2,3) lt by (auto simp: less_imp_le)
  moreover have "length (x # picked) = k - i" using p(5) ik by simp
  moreover have "\<And>r0. rank_combination_loop sliced k i (x # picked) r0 = Inr (r0 + rank)"
    using index_of_nth [OF Suc.prems(2) idx] p(6) r'(1) kk
    by (simp add: x_def rest_def T_def add.assoc)
  ultimately show ?case using p(4) by (intro exI [of _ "x # picked"]) auto
qed

lemma unrank_combination_ok:
  assumes "finite U" "rank < card U choose k"
  shows "\<exists>c. unrank_combination U k rank =
                Inr (Some \<lparr>cls = CombinationK, universal_set = U, combinatoric = SetP c\<rparr>) \<and>
             c \<subseteq> U \<and> card c = k \<and> rank_combination U c = Inr rank"
proof -
  let ?sliced = "sorted_list_of_set U"
  have len: "length ?sliced = card U" by simp
  from assms(2) have "rank < length ?sliced choose (k - 0)" by simp
  from unrank_loop_rank_loop [OF _ _ _ this, of "{}"]
  obtain picked where p: "unrank_combination_loop k 0 ?sliced rank {} = set picked"
    "sorted picked" "distinct picked" "set picked \<subseteq> set ?sliced" "length picked = k"
    "\<And>r0. rank_combination_loop ?sliced k 0 picked r0 = Inr (r0 + rank)"
    by auto
  from p(4) assms(1) have sub: "set picked \<subseteq> U" by simp
  from p(3,5) have card: "card (set picked) = k" by (simp add: distinct_card)
  from p(2,3) have "sorted_list_of_set (set picked) = picked"
    by (simp add: sorted_list_of_set.idem_if_sorted_distinct)
  with p(6) [of 0] card have "rank_combination U (set picked) = Inr rank"
    by (simp add: rank_combination_def)
  moreover from assms(2) p(1) sub
  have "unrank_combination U k rank =
          Inr (Some \<lparr>cls = CombinationK, universal_set = U, combinatoric = SetP (set picked)\<rparr>)"
    by (auto simp: unrank_combination_def Combination_def Combinatoric_init_def)
  ultimately show ?thesis using sub card by blast
qed


text \<open>
  Claim C1. For a finite universal set \<open>U\<close>, a size \<open>k \<le> |U|\<close> and a rank \<open>r\<close> below
  \<open>C(|U|, k)\<close>, \<open>unrank_combination\<close> raises nothing and returns a combination of \<open>k\<close>
  items of \<open>U\<close> whose rank, computed by \<open>rank_combination\<close> over the same universal set,
  is \<open>r\<close>.
\<close>

theorem unrank_then_rank_combination:
  assumes "finite U" "k \<le> card U" "r < card U choose k"
  shows "\<exists>c. unrank_combination U k r = Inr (Some c) \<and> cls c = CombinationK \<and>
             universal_set c = U \<and> len (combinatoric c) = k \<and>
             rank_combination U (items (combinatoric c)) = Inr r \<and> Combinatoric_rank c = Inr r"
proof -
  from unrank_combination_ok [OF assms(1,3)] obtain c
    where "unrank_combination U k r =
             Inr (Some \<lparr>cls = CombinationK, universal_set = U, combinatoric = SetP c\<rparr>)"
      "card c = k" "rank_combination U c = Inr r"
    by blast
  then show ?thesis
    by (simp add: Combinatoric_rank_def Combination_rank_def)
qed

theorem unrank_then_rank_combination_witness:
  "finite {1, 2, 3, 4 :: nat} \<and> 3 \<le> card {1, 2, 3, 4 :: nat} \<and> 1 < card {1, 2, 3, 4 :: nat} choose 3 \<and>
   unrank_combination {1, 2, 3, 4 :: nat} 3 1 =
     Inr (Some \<lparr>cls = CombinationK, universal_set = {1, 2, 3, 4}, combinatoric = SetP {1, 2, 4}\<rparr>) \<and>
   rank_combination {1, 2, 3, 4 :: nat} {1, 2, 4} = Inr 1"
proof -
  have h: "finite {1, 2, 3, 4 :: nat}" "3 \<le> card {1, 2, 3, 4 :: nat}" "1 < card {1, 2, 3, 4 :: nat} choose 3"
    by (simp_all add: numeral_eq_Suc)
  have u: "unrank_combination {1, 2, 3, 4 :: nat} 3 1 =
     Inr (Some \<lparr>cls = CombinationK, universal_set = {1, 2, 3, 4}, combinatoric = SetP {1, 2, 4}\<rparr>)"
    by code_simp
  from unrank_then_rank_combination [OF h] u
  have "rank_combination {1, 2, 3, 4 :: nat} {1, 2, 4} = Inr 1" by auto
  with h u show ?thesis by simp
qed


text \<open>
  Claim C10. When the size \<open>k\<close> exceeds the number of items of the universal set,
  \<open>unrank_combination\<close> returns \<open>None\<close> for every rank.
\<close>

theorem unrank_combination_oversized:
  assumes "card U < k"
  shows "unrank_combination U k rank = Inr None"
  using assms by (simp add: unrank_combination_def binomial_eq_0)

theorem unrank_combination_oversized_witness:
  "card {1, 2 :: nat} < 3 \<and> unrank_combination {1, 2 :: nat} 3 0 = Inr None"
  using unrank_combination_oversized [of "{1, 2 :: nat}" 3 0] by simp

section \<open>Lexicographic order of ranks\<close>

lemma index_of_Some: "index_of xs y = Some i \<Longrightarrow> i < length xs \<and> xs ! i = y"
  by (induction xs arbitrary: i) (auto split: if_splits)

lemma index_of_mem: "y \<in> set xs \<Longrightarrow> \<exists>i. index_of xs y = Some i"
  by (induction xs) auto

lemma rank_loop_acc:
  "rank_combination_loop U n i xs r0 =
     (case rank_combination_loop U n i xs 0 of Inl e \<Rightarrow> Inl e | Inr v \<Rightarrow> Inr (r0 + v))"
proof (induction xs arbitrary: U i r0)
  case Nil
  then show ?case by simp
next
  case (Cons x xs)
  show ?case
  proof (cases "index_of U x")
    case None
    then show ?thesis by simp
  next
    case (Some idx)
    define T where "T = (\<Sum>j \<leftarrow> [0..<idx]. length (drop (j + 1) U) choose (n - (i + 1)))"
    define later where "later = rank_combination_loop (drop (idx + 1) U) n (i + 1) xs"
    have a: "rank_combination_loop U n i (x # xs) r0 = later (r0 + T)"
      and b: "rank_combination_loop U n i (x # xs) 0 = later T"
      using Some by (simp_all add: T_def later_def)
    have c: "later (r0 + T) = (case later 0 of Inl e \<Rightarrow> Inl e | Inr v \<Rightarrow> Inr (r0 + T + v))"
      and d: "later T = (case later 0 of Inl e \<Rightarrow> Inl e | Inr v \<Rightarrow> Inr (T + v))"
      unfolding later_def by (rule Cons.IH)+
    show ?thesis unfolding a b c d by (cases "later 0") (simp_all add: add.assoc)
  qed
qed

lemma mem_drop_of_greater:
  assumes "sorted xs" "idx < length xs" "y \<in> set xs" "xs ! idx < y"
  shows "y \<in> set (drop (Suc idx) xs)"
proof -
  from assms(3) obtain j where j: "j < length xs" "xs ! j = y" by (auto simp: in_set_conv_nth)
  have "idx < j"
  proof (rule ccontr)
    assume "\<not> idx < j"
    then have "j \<le> idx" by simp
    from sorted_nth_mono [OF assms(1) this assms(2)] j assms(4) show False by simp
  qed
  then obtain d where "j = Suc idx + d" using less_iff_Suc_add by auto
  with j have "d < length (drop (Suc idx) xs)" "drop (Suc idx) xs ! d = y" by auto
  then show ?thesis using nth_mem by blast
qed

lemma skipped_mono:
  assumes "a \<le> b"
  shows "(\<Sum>j \<leftarrow> [0..<a]. length (drop (j + 1) U) choose m)
         \<le> (\<Sum>j \<leftarrow> [0..<b]. length (drop (j + 1) U) choose m)"
proof -
  from assms have "[0..<b] = [0..<a] @ [a..<b]"
    by (metis le_add_diff_inverse upt_add_eq_append zero_le)
  then show ?thesis by simp
qed

lemma skipped_all:
  assumes "idx \<le> length U"
  shows "(\<Sum>j \<leftarrow> [0..<idx]. length (drop (j + 1) U) choose m) \<le> length U choose (m + 1)"
  using skipped_mono [OF assms, of U m] hockey_stick [of "length U" m] by simp

lemma rank_loop_step:
  assumes "sorted U" "distinct U" "sorted (x # xs)" "distinct (x # xs)" "set (x # xs) \<subseteq> set U"
  shows "\<exists>idx. idx < length U \<and> U ! idx = x \<and> set xs \<subseteq> set (drop (Suc idx) U) \<and>
           rank_combination_loop U n i (x # xs) 0 =
             (case rank_combination_loop (drop (Suc idx) U) n (Suc i) xs 0 of
                Inl e \<Rightarrow> Inl e
              | Inr v \<Rightarrow> Inr ((\<Sum>j \<leftarrow> [0..<idx]. length (drop (j + 1) U) choose (n - (i + 1))) + v))"
proof -
  from assms(5) index_of_mem obtain idx where idx: "index_of U x = Some idx" by fastforce
  from index_of_Some [OF this] have lt: "idx < length U" and nth: "U ! idx = x" by auto
  have "set xs \<subseteq> set (drop (Suc idx) U)"
  proof
    fix y assume y: "y \<in> set xs"
    with assms(3,4) have "x < y" by (auto simp: less_le)
    with y assms(5) nth show "y \<in> set (drop (Suc idx) U)"
      using mem_drop_of_greater [OF assms(1) lt, of y] by auto
  qed
  moreover have "rank_combination_loop U n i (x # xs) 0 =
             (case rank_combination_loop (drop (Suc idx) U) n (Suc i) xs 0 of
                Inl e \<Rightarrow> Inl e
              | Inr v \<Rightarrow> Inr ((\<Sum>j \<leftarrow> [0..<idx]. length (drop (j + 1) U) choose (n - (i + 1))) + v))"
    using idx rank_loop_acc [of "drop (Suc idx) U" n "Suc i" xs
        "\<Sum>j \<leftarrow> [0..<idx]. length (drop (j + 1) U) choose (n - (i + 1))"]
    by simp
  ultimately show ?thesis using lt nth by blast
qed

lemma rank_loop_bound:
  assumes "sorted U" "distinct U" "sorted xs" "distinct xs" "set xs \<subseteq> set U" "i + length xs = n"
  shows "\<exists>R. rank_combination_loop U n i xs 0 = Inr R \<and> R < length U choose length xs"
  using assms
proof (induction xs arbitrary: U i)
  case Nil
  then show ?case by simp
next
  case (Cons x xs)
  from rank_loop_step [OF Cons.prems(1-5), of n i] obtain idx where idx: "idx < length U"
    "set xs \<subseteq> set (drop (Suc idx) U)"
    "rank_combination_loop U n i (x # xs) 0 =
       (case rank_combination_loop (drop (Suc idx) U) n (Suc i) xs 0 of
          Inl e \<Rightarrow> Inl e
        | Inr v \<Rightarrow> Inr ((\<Sum>j \<leftarrow> [0..<idx]. length (drop (j + 1) U) choose (n - (i + 1))) + v))"
    by blast
  have m: "n - (i + 1) = length xs" using Cons.prems(6) by simp
  from Cons.prems have "sorted (drop (Suc idx) U)" "distinct (drop (Suc idx) U)" "sorted xs" "distinct xs"
    "Suc i + length xs = n"
    by (simp_all add: sorted_wrt_drop)
  from Cons.IH [OF this(1-4) idx(2) this(5)] obtain R
    where R: "rank_combination_loop (drop (Suc idx) U) n (Suc i) xs 0 = Inr R"
      "R < length (drop (Suc idx) U) choose length xs" by blast
  define T where "T = (\<lambda>b. \<Sum>j \<leftarrow> [0..<b]. length (drop (j + 1) U) choose length xs)"
  have "T (Suc idx) = T idx + (length (drop (Suc idx) U) choose length xs)"
    by (simp add: T_def)
  moreover have "T (Suc idx) \<le> length U choose (length xs + 1)"
    unfolding T_def using skipped_all [of "Suc idx" U "length xs"] idx(1) by simp
  ultimately have "T idx + R < length U choose length (x # xs)" using R(2) by simp
  moreover have "rank_combination_loop U n i (x # xs) 0 = Inr (T idx + R)"
    using idx(3) R(1) m by (simp add: T_def)
  ultimately show ?case by blast
qed

lemma rank_loop_mono:
  assumes "sorted U" "distinct U" "sorted xs" "distinct xs" "set xs \<subseteq> set U"
    "sorted ys" "distinct ys" "set ys \<subseteq> set U" "length xs = length ys" "i + length xs = n"
    "xs < ys"
    "rank_combination_loop U n i xs 0 = Inr ra" "rank_combination_loop U n i ys 0 = Inr rb"
  shows "ra < rb"
  using assms(9,1-8,10-13)
proof (induction xs ys arbitrary: U i ra rb rule: list_induct2)
  case Nil
  then show ?case by simp
next
  case (Cons x xs y ys)
  define T where "T = (\<lambda>b. \<Sum>j \<leftarrow> [0..<b]. length (drop (j + 1) U) choose (n - (i + 1)))"
  have m: "n - (i + 1) = length xs" using Cons.prems(9) by simp
  from rank_loop_step [OF Cons.prems(1,2,3,4,5), of n i] obtain ix where ix: "ix < length U"
    "U ! ix = x" "set xs \<subseteq> set (drop (Suc ix) U)"
    "rank_combination_loop U n i (x # xs) 0 =
       (case rank_combination_loop (drop (Suc ix) U) n (Suc i) xs 0 of
          Inl e \<Rightarrow> Inl e | Inr v \<Rightarrow> Inr (T ix + v))"
    unfolding T_def by blast
  from rank_loop_step [OF Cons.prems(1,2,6,7,8), of n i] obtain iy where iy: "iy < length U"
    "U ! iy = y" "set ys \<subseteq> set (drop (Suc iy) U)"
    "rank_combination_loop U n i (y # ys) 0 =
       (case rank_combination_loop (drop (Suc iy) U) n (Suc i) ys 0 of
          Inl e \<Rightarrow> Inl e | Inr v \<Rightarrow> Inr (T iy + v))"
    unfolding T_def by blast
  have sx: "sorted (drop (Suc ix) U)" "distinct (drop (Suc ix) U)" "sorted xs" "distinct xs"
    and sy: "sorted (drop (Suc iy) U)" "distinct (drop (Suc iy) U)" "sorted ys" "distinct ys"
    and len: "Suc i + length xs = n" "Suc i + length ys = n"
    using Cons.prems Cons.hyps by (simp_all add: sorted_wrt_drop)
  from rank_loop_bound [OF sx ix(3) len(1)] obtain ra' where ra':
    "rank_combination_loop (drop (Suc ix) U) n (Suc i) xs 0 = Inr ra'"
    "ra' < length (drop (Suc ix) U) choose length xs" by blast
  from rank_loop_bound [OF sy iy(3) len(2)] obtain rb' where rb':
    "rank_combination_loop (drop (Suc iy) U) n (Suc i) ys 0 = Inr rb'" by blast
  from ix(4) ra'(1) Cons.prems(11) have ra: "ra = T ix + ra'" by simp
  from iy(4) rb'(1) Cons.prems(12) have rb: "rb = T iy + rb'" by simp
  from Cons.prems(10) consider (lt) "x < y" | (eq) "x = y" "xs < ys" by auto
  then show ?case
  proof cases
    case eq
    have same: "ix = iy"
      using nth_eq_iff_index_eq [OF Cons.prems(2) ix(1) iy(1)] ix(2) iy(2) eq(1) by simp
    from Cons.IH [OF sx ix(3) sy(3,4) iy(3) [folded same] len(1) eq(2) ra'(1) rb'(1) [folded same]]
    show ?thesis using ra rb same by simp
  next
    case lt
    have "ix < iy"
    proof (rule ccontr)
      assume "\<not> ix < iy"
      then have "iy \<le> ix" by simp
      from sorted_nth_mono [OF Cons.prems(1) this ix(1)] ix(2) iy(2) lt show False by simp
    qed
    then have "Suc ix \<le> iy" by simp
    from skipped_mono [OF this, of U "n - (i + 1)"] have "T (Suc ix) \<le> T iy" by (simp add: T_def)
    moreover have "T (Suc ix) = T ix + (length (drop (Suc ix) U) choose length xs)"
      using m by (simp add: T_def)
    ultimately show ?thesis using ra rb ra'(2) by simp
  qed
qed

text \<open>
  Claim C7. For two combinations \<open>a\<close> and \<open>b\<close> of the same size drawn from a finite
  universal set \<open>U\<close>, \<open>rank_combination\<close> raises on neither, and the sorted sequence of \<open>a\<close>
  precedes that of \<open>b\<close> in lexicographic order exactly when the rank of \<open>a\<close> is smaller.
  (On lists of equal length, \<open><\<close> is the element-wise lexicographic order.)
\<close>

theorem rank_combination_lexicographic:
  assumes "finite U" "a \<subseteq> U" "b \<subseteq> U" "card a = card b"
  shows "\<exists>ra rb. rank_combination U a = Inr ra \<and> rank_combination U b = Inr rb \<and>
           ((sorted_list_of_set a < sorted_list_of_set b) = (ra < rb))"
proof -
  let ?U = "sorted_list_of_set U"
  let ?a = "sorted_list_of_set a"
  let ?b = "sorted_list_of_set b"
  from assms have fin: "finite a" "finite b" by (auto intro: finite_subset)
  have U: "sorted ?U" "distinct ?U" by simp_all
  have a: "sorted ?a" "distinct ?a" "set ?a \<subseteq> set ?U" "0 + length ?a = card a"
    using assms fin by simp_all
  have b: "sorted ?b" "distinct ?b" "set ?b \<subseteq> set ?U" "0 + length ?b = card a"
    using assms fin by simp_all
  from rank_loop_bound [OF U a] obtain ra
    where ra: "rank_combination_loop ?U (card a) 0 ?a 0 = Inr ra" by blast
  from rank_loop_bound [OF U b] obtain rb
    where rb: "rank_combination_loop ?U (card a) 0 ?b 0 = Inr rb" by blast
  have len: "length ?a = length ?b" using assms(4) by simp
  have fwd: "?a < ?b \<Longrightarrow> ra < rb"
    using rank_loop_mono [OF U a(1-3) b(1-3) len a(4) _ ra rb] by simp
  have bwd: "?b < ?a \<Longrightarrow> rb < ra"
    using rank_loop_mono [OF U b(1-3) a(1-3) len [symmetric] b(4) _ rb ra] by simp
  have same: "?a = ?b \<Longrightarrow> ra = rb" using ra rb by simp
  have "(?a < ?b) = (ra < rb)"
    using fwd bwd same by (cases ?a ?b rule: linorder_cases) auto
  moreover have "rank_combination U a = Inr ra" "rank_combination U b = Inr rb"
    using ra rb assms(4) by (simp_all add: rank_combination_def)
  ultimately show ?thesis by blast
qed

theorem rank_combination_lexicographic_witness:
  "finite {1, 2, 3, 4 :: nat} \<and> {1, 4} \<subseteq> {1, 2, 3, 4 :: nat} \<and> {2, 3} \<subseteq> {1, 2, 3, 4 :: nat} \<and>
   card {1, 4 :: nat} = card {2, 3 :: nat} \<and>
   rank_combination {1, 2, 3, 4 :: nat} {1, 4} = Inr 2 \<and>
   rank_combination {1, 2, 3, 4 :: nat} {2, 3} = Inr 3 \<and>
   sorted_list_of_set {1, 4 :: nat} < sorted_list_of_set {2, 3 :: nat}"
proof -
  have h: "finite {1, 2, 3, 4 :: nat}" "{1, 4} \<subseteq> {1, 2, 3, 4 :: nat}" "{2, 3} \<subseteq> {1, 2, 3, 4 :: nat}"
    "card {1, 4 :: nat} = card {2, 3 :: nat}"
    by simp_all
  have r: "rank_combination {1, 2, 3, 4 :: nat} {1, 4} = Inr 2"
    "rank_combination {1, 2, 3, 4 :: nat} {2, 3} = Inr 3"
    by code_simp+
  from rank_combination_lexicographic [OF h] r
  have "sorted_list_of_set {1, 4 :: nat} < sorted_list_of_set {2, 3 :: nat}" by simp
  with h r show ?thesis by simp
qed

section \<open>The combination iterator\<close>

lemma exhaust_None: "exhaust None = Some (Inr [])"
  by (subst exhaust.simps) (simp add: CombinationIterator_next_def)

lemma unrank_combination_total:
  assumes "finite U"
  shows "\<exists>st. unrank_combination U k r = Inr st"
proof (cases "r < card U choose k")
  case True
  from unrank_combination_ok [OF assms True] show ?thesis by blast
next
  case False
  then show ?thesis by (simp add: unrank_combination_def)
qed

lemma exhaust_from_rank:
  assumes "finite U" "r \<le> card U choose k" "unrank_combination U k r = Inr st"
  shows "\<exists>cs. exhaust st = Some (Inr cs) \<and> length cs = (card U choose k) - r \<and>
           (\<forall>j < length cs. cls (cs ! j) = CombinationK \<and> universal_set (cs ! j) = U \<and>
              len (combinatoric (cs ! j)) = k \<and> Combinatoric_rank (cs ! j) = Inr (r + j))"
  using assms(2,3)
proof (induction "(card U choose k) - r" arbitrary: r st)
  case 0
  then have "st = None" by (simp add: unrank_combination_def)
  with 0 show ?case by (simp add: exhaust_None)
next
  case (Suc d)
  then have lt: "r < card U choose k" by simp
  from unrank_combination_ok [OF assms(1) lt] Suc.prems(2) obtain c
    where c: "st = Some \<lparr>cls = CombinationK, universal_set = U, combinatoric = SetP c\<rparr>"
      "card c = k" "rank_combination U c = Inr r"
    by auto
  define ob where "ob = \<lparr>cls = CombinationK, universal_set = U, combinatoric = SetP c\<rparr>"
  have rk: "Combinatoric_rank ob = Inr r"
    using c(3) by (simp add: ob_def Combinatoric_rank_def Combination_rank_def)
  from unrank_combination_total [OF assms(1)] obtain st'
    where st': "unrank_combination U k (r + 1) = Inr st'" by blast
  have su: "Combinatoric_successor ob = Inr st'"
    using rk st' c(2) by (simp add: Combinatoric_successor_def ob_def)
  have "d = (card U choose k) - (r + 1)" "r + 1 \<le> card U choose k"
    using Suc.hyps(2) lt by simp_all
  from Suc.hyps(1) [OF this st'] obtain cs
    where cs: "exhaust st' = Some (Inr cs)" "length cs = (card U choose k) - (r + 1)"
      "\<And>j. j < length cs \<Longrightarrow> cls (cs ! j) = CombinationK \<and> universal_set (cs ! j) = U \<and>
              len (combinatoric (cs ! j)) = k \<and> Combinatoric_rank (cs ! j) = Inr (r + 1 + j)"
    by blast
  have "exhaust st = Some (Inr (ob # cs))"
    using c(1) su cs(1)
    by (subst exhaust.simps) (simp add: CombinationIterator_next_def ob_def)
  moreover have "length (ob # cs) = (card U choose k) - r" using cs(2) lt by simp
  moreover have "cls ((ob # cs) ! j) = CombinationK \<and> universal_set ((ob # cs) ! j) = U \<and>
              len (combinatoric ((ob # cs) ! j)) = k \<and> Combinatoric_rank ((ob # cs) ! j) = Inr (r + j)"
    if "j < length (ob # cs)" for j
  proof (cases j)
    case 0
    then show ?thesis using rk c(2) by (simp add: ob_def)
  next
    case (Suc j')
    with that cs(3) [of j'] show ?thesis by simp
  qed
  ultimately show ?case by blast
qed

text \<open>
  Claim C8. For a finite universal set \<open>U\<close> and a size \<open>k \<le> |U|\<close>, iterating
  \<open>CombinationIterator(U, k, 0)\<close> to exhaustion ends, raises nothing, and yields exactly
  \<open>C(|U|, k)\<close> combinations of \<open>k\<close> items of \<open>U\<close>; the \<open>i\<close>-th object yielded has rank \<open>i\<close>.
\<close>

theorem CombinationIterator_visits_every_rank:
  assumes "finite U" "k \<le> card U"
  shows "\<exists>cs. CombinationIterator_list U k 0 = Some (Inr cs) \<and> length cs = card U choose k \<and>
           (\<forall>i < length cs. cls (cs ! i) = CombinationK \<and> universal_set (cs ! i) = U \<and>
              len (combinatoric (cs ! i)) = k \<and> Combinatoric_rank (cs ! i) = Inr i)"
proof -
  from unrank_combination_total [OF assms(1)] obtain st
    where st: "unrank_combination U k 0 = Inr st" by blast
  from exhaust_from_rank [OF assms(1) _ st] st show ?thesis
    by (simp add: CombinationIterator_list_def CombinationIterator_def)
qed

theorem CombinationIterator_visits_every_rank_witness:
  "finite {1, 2, 3 :: nat} \<and> 2 \<le> card {1, 2, 3 :: nat} \<and>
   CombinationIterator_list {1, 2, 3 :: nat} 2 0 =
     Some (Inr [\<lparr>cls = CombinationK, universal_set = {1, 2, 3}, combinatoric = SetP {1, 2}\<rparr>,
                \<lparr>cls = CombinationK, universal_set = {1, 2, 3}, combinatoric = SetP {1, 3}\<rparr>,
                \<lparr>cls = CombinationK, universal_set = {1, 2, 3}, combinatoric = SetP {2, 3}\<rparr>]) \<and>
   Combinatoric_rank \<lparr>cls = CombinationK, universal_set = {1, 2, 3 :: nat}, combinatoric = SetP {1, 3}\<rparr> = Inr 1"
proof -
  have h: "finite {1, 2, 3 :: nat}" "2 \<le> card {1, 2, 3 :: nat}" by simp_all
  have l: "CombinationIterator_list {1, 2, 3 :: nat} 2 0 =
     Some (Inr [\<lparr>cls = CombinationK, universal_set = {1, 2, 3}, combinatoric = SetP {1, 2}\<rparr>,
                \<lparr>cls = CombinationK, universal_set = {1, 2, 3}, combinatoric = SetP {1, 3}\<rparr>,
                \<lparr>cls = CombinationK, universal_set = {1, 2, 3}, combinatoric = SetP {2, 3}\<rparr>])"
    by code_simp
  from CombinationIterator_visits_every_rank [OF h] l
  have "Combinatoric_rank \<lparr>cls = CombinationK, universal_set = {1, 2, 3 :: nat}, combinatoric = SetP {1, 3}\<rparr> = Inr 1"
    by (auto dest: spec [of _ 1])
  with h l show ?thesis by simp
qed

section \<open>Comparing objects that are not comparable\<close>

text \<open>
  Claim C9, as amended. For two objects of the class \<open>Combinatoric\<close> (a \<open>Combination\<close> or
  a \<open>Permutation\<close>) drawn from different universal sets, or of different sizes, each of
  the comparisons \<open>==\<close>, \<open><\<close> and \<open>>\<close> raises \<open>NotImplementedError\<close> and returns no boolean.
\<close>

theorem incomparable_objects_raise:
  assumes "universal_set a \<noteq> universal_set b \<or> len (combinatoric a) \<noteq> len (combinatoric b)"
  shows "Combinatoric_eq a b = Inl NotImplementedError \<and>
         Combinatoric_lt a b = Inl NotImplementedError \<and>
         Combinatoric_gt a b = Inl NotImplementedError"
  using assms
  by (auto simp: Combinatoric_eq_def Combinatoric_lt_def Combinatoric_gt_def ensure_comparable_def)


theorem incomparable_objects_raise_witness:
  "universal_set \<lparr>cls = CombinationK, universal_set = {1, 2 :: nat}, combinatoric = SetP {1}\<rparr>
     \<noteq> universal_set \<lparr>cls = CombinationK, universal_set = {1, 2, 3, 4 :: nat}, combinatoric = SetP {1}\<rparr> \<and>
   Combinatoric_eq \<lparr>cls = CombinationK, universal_set = {1, 2 :: nat}, combinatoric = SetP {1}\<rparr>
     \<lparr>cls = CombinationK, universal_set = {1, 2, 3, 4}, combinatoric = SetP {1}\<rparr> = Inl NotImplementedError \<and>
   Combinatoric_lt \<lparr>cls = CombinationK, universal_set = {1, 2 :: nat}, combinatoric = SetP {1}\<rparr>
     \<lparr>cls = CombinationK, universal_set = {1, 2, 3, 4}, combinatoric = SetP {1}\<rparr> = Inl NotImplementedError \<and>
   Combinatoric_gt \<lparr>cls = CombinationK, universal_set = {1, 2 :: nat}, combinatoric = SetP {1}\<rparr>
     \<lparr>cls = CombinationK, universal_set = {1, 2, 3, 4}, combinatoric = SetP {1}\<rparr> = Inl NotImplementedError \<and>
   len (combinatoric \<lparr>cls = PermutationK, universal_set = {1, 2 :: nat}, combinatoric = TupleP [1]\<rparr>)
     \<noteq> len (combinatoric \<lparr>cls = PermutationK, universal_set = {1, 2 :: nat}, combinatoric = TupleP [1, 2]\<rparr>) \<and>
   Combinatoric_eq \<lparr>cls = PermutationK, universal_set = {1, 2 :: nat}, combinatoric = TupleP [1]\<rparr>
     \<lparr>cls = PermutationK, universal_set = {1, 2}, combinatoric = TupleP [1, 2]\<rparr> = Inl NotImplementedError \<and>
   Combinatoric_lt \<lparr>cls = PermutationK, universal_set = {1, 2 :: nat}, combinatoric = TupleP [1]\<rparr>
     \<lparr>cls = PermutationK, universal_set = {1, 2}, combinatoric = TupleP [1, 2]\<rparr> = Inl NotImplementedError \<and>
   Combinatoric_gt \<lparr>cls = PermutationK, universal_set = {1, 2 :: nat}, combinatoric = TupleP [1]\<rparr>
     \<lparr>cls = PermutationK, universal_set = {1, 2}, combinatoric = TupleP [1, 2]\<rparr> = Inl NotImplementedError"
proof -
  have u: "universal_set \<lparr>cls = CombinationK, universal_set = {1, 2 :: nat}, combinatoric = SetP {1}\<rparr>
     \<noteq> universal_set \<lparr>cls = CombinationK, universal_set = {1, 2, 3, 4 :: nat}, combinatoric = SetP {1}\<rparr>"
    by auto
  have l: "len (combinatoric \<lparr>cls = PermutationK, universal_set = {1, 2 :: nat}, combinatoric = TupleP [1]\<rparr>)
     \<noteq> len (combinatoric \<lparr>cls = PermutationK, universal_set = {1, 2 :: nat}, combinatoric = TupleP [1, 2]\<rparr>)"
    by simp
  from u have u': "universal_set \<lparr>cls = CombinationK, universal_set = {1, 2 :: nat}, combinatoric = SetP {1}\<rparr>
     \<noteq> universal_set \<lparr>cls = CombinationK, universal_set = {1, 2, 3, 4 :: nat}, combinatoric = SetP {1}\<rparr> \<or>
     len (combinatoric \<lparr>cls = CombinationK, universal_set = {1, 2 :: nat}, combinatoric = SetP {1}\<rparr>)
     \<noteq> len (combinatoric \<lparr>cls = CombinationK, universal_set = {1, 2, 3, 4 :: nat}, combinatoric = SetP {1}\<rparr>)"
    by (rule disjI1)
  from l have l': "universal_set \<lparr>cls = PermutationK, universal_set = {1, 2 :: nat}, combinatoric = TupleP [1]\<rparr>
     \<noteq> universal_set \<lparr>cls = PermutationK, universal_set = {1, 2 :: nat}, combinatoric = TupleP [1, 2]\<rparr> \<or>
     len (combinatoric \<lparr>cls = PermutationK, universal_set = {1, 2 :: nat}, combinatoric = TupleP [1]\<rparr>)
     \<noteq> len (combinatoric \<lparr>cls = PermutationK, universal_set = {1, 2 :: nat}, combinatoric = TupleP [1, 2]\<rparr>)"
    by (rule disjI2)
  show ?thesis
    using u l incomparable_objects_raise [OF u'] incomparable_objects_raise [OF l'] by blast
qed

text \<open>
  The claim as first stated, for every pair of combinatorial objects, fails on the
  classes outside \<open>Combinatoric\<close>: \<open>MultiCombination({1, 2}, (1,))\<close> and
  \<open>MultiCombination({1, 2, 3}, (1,))\<close> are drawn from different universal sets, and \<open>==\<close>
  between them returns \<open>False\<close> instead of raising.
\<close>

theorem MultiCombination_eq_returns_False:
  "MultiCombination_init {1, 2 :: nat} [1] =
     Inr \<lparr>mc_universal_set = [1, 2], mc_multicombination = [1]\<rparr> \<and>
   MultiCombination_init {1, 2, 3 :: nat} [1] =
     Inr \<lparr>mc_universal_set = [1, 2, 3], mc_multicombination = [1]\<rparr> \<and>
   mc_universal_set \<lparr>mc_universal_set = [1, 2 :: nat], mc_multicombination = [1]\<rparr>
     \<noteq> mc_universal_set \<lparr>mc_universal_set = [1, 2, 3 :: nat], mc_multicombination = [1]\<rparr> \<and>
   MultiCombination_eq
     \<lparr>object_id = 0, attributes = \<lparr>mc_universal_set = [1, 2 :: nat], mc_multicombination = [1]\<rparr>\<rparr>
     \<lparr>object_id = 1, attributes = \<lparr>mc_universal_set = [1, 2, 3], mc_multicombination = [1]\<rparr>\<rparr>
     = Inr False"
  by code_simp

section \<open>The restricted partition counter\<close>

lemma size_le_sum_mset:
  fixes M :: "int multiset"
  assumes "\<forall>x \<in># M. 1 \<le> x"
  shows "int (size M) \<le> sum_mset M"
  using assms by (induction M) auto

lemma sum_mset_nonneg_int:
  fixes M :: "int multiset"
  assumes "\<forall>x \<in># M. 0 \<le> x"
  shows "0 \<le> sum_mset M"
  using assms by (induction M) auto

lemma part_le_sum_mset:
  fixes M :: "int multiset"
  assumes "\<forall>x \<in># M. 0 \<le> x" "y \<in># M"
  shows "y \<le> sum_mset M"
proof -
  from assms(2) have M: "M = add_mset y (M - {#y#})" by simp
  from assms(1) have "\<forall>x \<in># M - {#y#}. 0 \<le> x" by (meson in_diffD)
  from sum_mset_nonneg_int [OF this] have "y \<le> y + sum_mset (M - {#y#})" by simp
  also have "\<dots> = sum_mset (add_mset y (M - {#y#}))" by simp
  finally show ?thesis using M by simp
qed

lemma all_ones:
  fixes M :: "int multiset"
  assumes "\<forall>x \<in># M. 1 \<le> x" "sum_mset M = int (size M)"
  shows "M = replicate_mset (size M) 1"
  using assms
proof (induction M)
  case empty
  then show ?case by simp
next
  case (add x M)
  from add.prems(1) have "1 \<le> x" and pos: "\<forall>y \<in># M. 1 \<le> y" by auto
  from size_le_sum_mset [OF pos] add.prems(2) \<open>1 \<le> x\<close>
  have "x = 1" "sum_mset M = int (size M)" by auto
  with add.IH [OF pos] show ?case by simp
qed

lemma sum_mset_shift:
  fixes M :: "int multiset"
  shows "sum_mset (image_mset (\<lambda>x. x + l) M) = sum_mset M + l * int (size M)"
  by (induction M) (auto simp: algebra_simps)

lemma partitionsD:
  assumes "M \<in> partitions n k l"
  shows "int (size M) = k" and "\<And>x. x \<in># M \<Longrightarrow> 0 < x \<and> l \<le> x" and "sum_mset M = n"
  using assms unfolding partitions_def by blast+

lemma partitionsI:
  assumes "int (size M) = k" and "\<And>x. x \<in># M \<Longrightarrow> 0 < x \<and> l \<le> x" and "sum_mset M = n"
  shows "M \<in> partitions n k l"
  using assms unfolding partitions_def by blast

lemma finite_partitions: "finite (partitions n k l)"
proof -
  have "partitions n k l \<subseteq> multisets_of_size {0..n} (nat k)"
  proof
    fix M assume M: "M \<in> partitions n k l"
    note d = partitionsD [OF M]
    have "0 \<le> x" if "x \<in># M" for x using d(2) [OF that] by simp
    then have pos: "\<forall>x \<in># M. 0 \<le> x" by blast
    have "x \<in> {0..n}" if "x \<in># M" for x
      using part_le_sum_mset [OF pos that] d(3) pos that by simp
    then have "set_mset M \<subseteq> {0..n}" by blast
    moreover from d(1) have "size M = nat k" by simp
    ultimately show "M \<in> multisets_of_size {0..n} (nat k)"
      unfolding multisets_of_size_def by blast
  qed
  moreover have "finite (multisets_of_size {0..n} (nat k))"
    by (rule finite_multisets_of_size) simp
  ultimately show ?thesis by (rule finite_subset)
qed

lemma partitions_empty:
  assumes "n < k"
  shows "partitions n k l = {}"
proof -
  have False if M: "M \<in> partitions n k l" for M
  proof -
    note d = partitionsD [OF M]
    have "1 \<le> x" if "x \<in># M" for x using d(2) [OF that] by simp
    then have "\<forall>x \<in># M. 1 \<le> x" by blast
    from size_le_sum_mset [OF this] d(1,3) assms show False by simp
  qed
  then show ?thesis by blast
qed

lemma partitions_single:
  assumes "1 \<le> l" "l \<le> n"
  shows "partitions n 1 l = {{#n#}}"
proof (rule equalityI; rule subsetI)
  fix M assume M: "M \<in> partitions n 1 l"
  note d = partitionsD [OF M]
  from d(1) have "size M = 1" by simp
  from size_1_singleton_mset [OF this] obtain a where "M = {#a#}" by blast
  with d(3) show "M \<in> {{#n#}}" by simp
next
  fix M assume "M \<in> {{#n#}}"
  then have "M = {#n#}" by simp
  with assms show "M \<in> partitions n 1 l" by (intro partitionsI) simp_all
qed

lemma partitions_ones:
  assumes "1 \<le> n"
  shows "partitions n n 1 = {replicate_mset (nat n) 1}"
proof (rule equalityI; rule subsetI)
  fix M assume M: "M \<in> partitions n n 1"
  note d = partitionsD [OF M]
  have "1 \<le> x" if "x \<in># M" for x using d(2) [OF that] by simp
  then have "\<forall>x \<in># M. 1 \<le> x" by blast
  moreover from d(1,3) have "sum_mset M = int (size M)" by simp
  ultimately have "M = replicate_mset (size M) 1" by (rule all_ones)
  moreover from d(1) have "size M = nat n" by simp
  ultimately show "M \<in> {replicate_mset (nat n) 1}" by simp
next
  fix M assume "M \<in> {replicate_mset (nat n) (1 :: int)}"
  then have "M = replicate_mset (nat n) 1" by simp
  with assms show "M \<in> partitions n n 1" by (intro partitionsI) simp_all
qed


lemma partitions_with_least:
  assumes "1 \<le> l"
  shows "{M \<in> partitions n k l. l \<in># M} = add_mset l ` partitions (n - l) (k - 1) l"
proof (rule equalityI; rule subsetI)
  fix M assume "M \<in> {M \<in> partitions n k l. l \<in># M}"
  then have M: "M \<in> partitions n k l" and l: "l \<in># M" by blast+
  note d = partitionsD [OF M]
  define M' where "M' = M - {#l#}"
  from l have eq: "M = add_mset l M'" by (simp add: M'_def)
  have "M' \<in> partitions (n - l) (k - 1) l"
  proof (rule partitionsI)
    show "int (size M') = k - 1" using d(1) eq by simp
    show "0 < x \<and> l \<le> x" if "x \<in># M'" for x using d(2) [of x] that eq by simp
    show "sum_mset M' = n - l" using d(3) eq by simp
  qed
  with eq show "M \<in> add_mset l ` partitions (n - l) (k - 1) l" by blast
next
  fix M assume "M \<in> add_mset l ` partitions (n - l) (k - 1) l"
  then obtain M' where eq: "M = add_mset l M'" and M': "M' \<in> partitions (n - l) (k - 1) l" by blast
  note d = partitionsD [OF M']
  have "M \<in> partitions n k l"
  proof (rule partitionsI)
    show "int (size M) = k" using d(1) eq by simp
    show "0 < x \<and> l \<le> x" if "x \<in># M" for x using d(2) [of x] that eq assms by auto
    show "sum_mset M = n" using d(3) eq by simp
  qed
  with eq show "M \<in> {M \<in> partitions n k l. l \<in># M}" by simp
qed

lemma partitions_above_least:
  assumes "1 \<le> l"
  shows "{M \<in> partitions n k l. l \<notin># M} = image_mset (\<lambda>x. x + l) ` partitions (n - l * k) k 1"
proof (rule equalityI; rule subsetI)
  fix M assume "M \<in> {M \<in> partitions n k l. l \<notin># M}"
  then have M: "M \<in> partitions n k l" and l: "l \<notin># M" by blast+
  note d = partitionsD [OF M]
  define M' where "M' = image_mset (\<lambda>x. x - l) M"
  have eq: "M = image_mset (\<lambda>x. x + l) M'"
    by (simp add: M'_def multiset.map_comp comp_def)
  have sz: "int (size M') = k" using d(1) by (simp add: M'_def)
  have "M' \<in> partitions (n - l * k) k 1"
  proof (rule partitionsI)
    show "int (size M') = k" by (rule sz)
    show "0 < x \<and> 1 \<le> x" if "x \<in># M'" for x
    proof -
      from that obtain y where y: "y \<in># M" "x = y - l" by (auto simp: M'_def)
      from d(2) [OF y(1)] l y(1) have "l < y" by (metis order_le_less)
      with y(2) show ?thesis by simp
    qed
    show "sum_mset M' = n - l * k" using sum_mset_shift [of l M'] d(3) eq sz by simp
  qed
  with eq show "M \<in> image_mset (\<lambda>x. x + l) ` partitions (n - l * k) k 1" by blast
next
  fix M assume "M \<in> image_mset (\<lambda>x. x + l) ` partitions (n - l * k) k 1"
  then obtain M' where eq: "M = image_mset (\<lambda>x. x + l) M'"
    and M': "M' \<in> partitions (n - l * k) k 1" by blast
  note d = partitionsD [OF M']
  have gt: "l < x" if "x \<in># M" for x
  proof -
    from that eq obtain y where y: "y \<in># M'" "x = y + l" by auto
    from d(2) [OF y(1)] y(2) show ?thesis by simp
  qed
  have "M \<in> partitions n k l"
  proof (rule partitionsI)
    show "int (size M) = k" using d(1) eq by simp
    show "0 < x \<and> l \<le> x" if "x \<in># M" for x using gt [OF that] assms by simp
    show "sum_mset M = n" using sum_mset_shift [of l M'] d(1,3) eq by simp
  qed
  moreover have "l \<notin># M" using gt by blast
  ultimately show "M \<in> {M \<in> partitions n k l. l \<notin># M}" by simp
qed

lemma card_partitions_rec:
  assumes "1 \<le> l"
  shows "card (partitions n k l) =
           card (partitions (n - l) (k - 1) l) + card (partitions (n - l * k) k 1)"
proof -
  let ?A = "{M \<in> partitions n k l. l \<in># M}"
  let ?B = "{M \<in> partitions n k l. l \<notin># M}"
  have split: "partitions n k l = ?A \<union> ?B" by blast
  have fin: "finite ?A" "finite ?B" using finite_partitions [of n k l] by simp_all
  have "?A \<inter> ?B = {}" by blast
  from card_Un_disjoint [OF fin this] split
  have "card (partitions n k l) = card ?A + card ?B" by simp
  moreover have "card (add_mset l ` partitions (n - l) (k - 1) l) = card (partitions (n - l) (k - 1) l)"
    by (rule card_image) (simp add: inj_on_def)
  moreover have "card (image_mset (\<lambda>x. x + l) ` partitions (n - l * k) k 1)
                 = card (partitions (n - l * k) k 1)"
  proof (rule card_image, rule inj_on_inverseI)
    fix M :: "int multiset"
    show "image_mset (\<lambda>x. x - l) (image_mset (\<lambda>x. x + l) M) = M"
      by (simp add: multiset.map_comp comp_def)
  qed
  ultimately show ?thesis
    by (simp only: partitions_with_least [OF assms] partitions_above_least [OF assms])
qed

lemma part_eq_card:
  "1 \<le> l \<Longrightarrow> 1 \<le> k \<Longrightarrow> n < k \<or> k * l \<le> n \<Longrightarrow> part n k l = int (card (partitions n k l))"
proof (induction n k l rule: part.induct)
  case (1 n k l)
  show ?case
  proof (cases "n < k \<or> k \<le> 0")
    case True
    with "1.prems" have "n < k" by simp
    then show ?thesis by (simp add: part.simps [of n k l] partitions_empty)
  next
    case notzero: False
    with "1.prems" have kl: "k * l \<le> n" by simp
    show ?thesis
    proof (cases "k = n \<or> k = 1")
      case True
      then have p: "part n k l = 1" using notzero by (simp add: part.simps [of n k l])
      from True show ?thesis
      proof
        assume k1: "k = 1"
        with kl have "l \<le> n" by simp
        from partitions_single [OF "1.prems"(1) this] p k1 show ?thesis by simp
      next
        assume kn: "k = n"
        have "l = 1"
        proof (rule ccontr)
          assume "l \<noteq> 1"
          with "1.prems"(1) have "2 \<le> l" by simp
          with "1.prems"(2) have "k * 2 \<le> k * l" by (intro mult_left_mono) simp_all
          with kl kn "1.prems"(2) show False by simp
        qed
        moreover from kn "1.prems"(2) have "1 \<le> n" by simp
        ultimately show ?thesis using partitions_ones [of n] p kn by simp
      qed
    next
      case False
      with notzero "1.prems" have k2: "1 \<le> k - 1" by simp
      have "(k - 1) * l \<le> n - l" using kl by (simp add: algebra_simps)
      then have "n - l < k - 1 \<or> (k - 1) * l \<le> n - l" by simp
      from "1.IH"(1) [OF notzero False "1.prems"(1) k2 this]
      have a: "part (n - l) (k - 1) l = int (card (partitions (n - l) (k - 1) l))" .
      have "n - l * k < k \<or> k * 1 \<le> n - l * k" by auto
      from "1.IH"(2) [OF notzero False _ "1.prems"(2) this]
      have b: "part (n - l * k) k 1 = int (card (partitions (n - l * k) k 1))" by simp
      from notzero False have "part n k l = part (n - l) (k - 1) l + part (n - l * k) k 1"
        by (simp add: part.simps [of n k l])
      with a b card_partitions_rec [OF "1.prems"(1), of n k] show ?thesis by simp
    qed
  qed
qed


lemma least_times_size_le_sum_mset:
  fixes M :: "int multiset"
  assumes "\<forall>x \<in># M. l \<le> x"
  shows "l * int (size M) \<le> sum_mset M"
  using assms by (induction M) (auto simp: algebra_simps)

lemma partitions_infeasible:
  assumes "n < k * l"
  shows "partitions n k l = {}"
proof -
  have False if M: "M \<in> partitions n k l" for M
  proof -
    note d = partitionsD [OF M]
    have "l \<le> x" if "x \<in># M" for x using d(2) [OF that] by simp
    then have "\<forall>x \<in># M. l \<le> x" by blast
    from least_times_size_le_sum_mset [OF this] d(1,3) assms show False
      by (simp add: mult.commute)
  qed
  then show ?thesis by blast
qed

text \<open>
  Claim C2, as amended. For all integers \<open>n\<close>, \<open>k\<close> and \<open>l\<close>: \<open>part(n, k, l)\<close> is \<open>0\<close> when
  \<open>n < k\<close> or \<open>k \<le> 0\<close>; otherwise it is \<open>1\<close> when \<open>k = n\<close> or \<open>k = 1\<close>; and for \<open>l \<ge> 1\<close>
  and \<open>k \<ge> 1\<close>, whenever \<open>n < k\<close> or \<open>n \<ge> k * l\<close> (the minimum part fits \<open>k\<close> times),
  \<open>part(n, k, l)\<close> is the number of ways to write \<open>n\<close> as an unordered sum of exactly \<open>k\<close>
  positive parts, each at least \<open>l\<close>.
\<close>

theorem part_counts_feasible_partitions:
  "(n < k \<or> k \<le> 0 \<longrightarrow> part n k l = 0) \<and>
   (0 < k \<and> k \<le> n \<and> (k = n \<or> k = 1) \<longrightarrow> part n k l = 1) \<and>
   (1 \<le> l \<and> 1 \<le> k \<and> (n < k \<or> k * l \<le> n) \<longrightarrow> part n k l = int (card (partitions n k l)))"
proof (intro conjI impI)
  assume "n < k \<or> k \<le> 0"
  then show "part n k l = 0" by (simp add: part.simps [of n k l])
next
  assume "0 < k \<and> k \<le> n \<and> (k = n \<or> k = 1)"
  then show "part n k l = 1" by (auto simp: part.simps [of n k l])
next
  assume "1 \<le> l \<and> 1 \<le> k \<and> (n < k \<or> k * l \<le> n)"
  then show "part n k l = int (card (partitions n k l))" by (intro part_eq_card) simp_all
qed

theorem part_counts_feasible_partitions_witness:
  "(1 :: int) < 2 \<and> part 1 2 1 = 0 \<and>
   (0 :: int) < 3 \<and> part 3 3 1 = 1 \<and>
   (1 :: int) \<le> 2 \<and> (1 :: int) \<le> 3 \<and> (3 :: int) * 2 \<le> 8 \<and>
   part 8 3 2 = 2 \<and> card (partitions 8 3 2) = 2"
proof -
  have a: "part 1 2 1 = 0"
    using part_counts_feasible_partitions [of 1 2 1] by simp
  have b: "part 3 3 1 = 1"
    using part_counts_feasible_partitions [of 3 3 1] by simp
  have c: "part 8 3 2 = int (card (partitions 8 3 2))"
    using part_counts_feasible_partitions [of 8 3 2] by simp
  have d: "part 8 3 2 = 2" by (simp add: part.simps)
  from a b c d show ?thesis by simp
qed

text \<open>
  The claim as first stated fails where \<open>k \<le> n < k * l\<close>: \<open>2\<close> is not a sum of one part
  that is at least \<open>3\<close>, yet \<open>part(2, 1, 3)\<close> is \<open>1\<close> by the base case \<open>k = 1\<close>. The base
  case \<open>k = 1\<close> itself gives way to \<open>n < k\<close>: \<open>part(0, 1, 1)\<close> is \<open>0\<close>.
\<close>

theorem part_miscounts_infeasible:
  "(1 :: int) \<le> 3 \<and> part 2 1 3 = 1 \<and> card (partitions 2 1 3) = 0 \<and> part 0 1 1 = 0"
proof -
  have "partitions 2 1 3 = {}" by (rule partitions_infeasible) simp
  then show ?thesis by (simp add: part.simps)
qed

section \<open>Behaviour of the other codecs at concrete inputs\<close>

text \<open>
  Claim C3. The claim says that every codec's \<open>unrank\<close> returns \<open>None\<close> at a rank equal to
  the count. Over the universal set \<open>{1, 2}\<close> with \<open>k = 1\<close> the multi-combination count is
  \<open>C(2, 1) = 2\<close>; \<open>unrank_multicombination\<close> tests \<open>rank > count\<close>, not \<open>rank >= count\<close>, and
  returns an object (with an empty tuple) at rank \<open>2\<close>.
\<close>

theorem unrank_multicombination_at_count:
  "comb (int (card {1, 2 :: nat}) + int 1 - 1) (int 1) = Inr 2 \<and>
   unrank_multicombination {1, 2 :: nat} 1 2 =
     Inr (Some \<lparr>mc_universal_set = [1, 2], mc_multicombination = []\<rparr>)"
  by code_simp

text \<open>
  Claim C4. The claim says that \<open>Permutation.rank\<close> is the factorial-number-system rank, so
  that \<open>(B, A)\<close> over \<open>{A, B}\<close> has rank \<open>1\<close>. \<open>Permutation.rank\<close> calls \<open>rank_combination\<close>
  on the set of the permutation's items: the permutation \<open>(2, 1)\<close> over \<open>{1, 2}\<close> has
  rank \<open>0\<close>.
\<close>

theorem Permutation_rank_is_combination_rank:
  "Permutation {1, 2 :: nat} [2, 1] =
     Inr \<lparr>cls = PermutationK, universal_set = {1, 2}, combinatoric = TupleP [2, 1]\<rparr> \<and>
   Combinatoric_rank \<lparr>cls = PermutationK, universal_set = {1, 2 :: nat}, combinatoric = TupleP [2, 1]\<rparr>
     = Inr 0"
  by code_simp

text \<open>
  Claim C5. The claim says that \<open>successor\<close> returns the object of the same family whose
  rank is one more, and \<open>None\<close> exactly at the last rank. A \<open>Permutation\<close> inherits
  \<open>Combinatoric.successor\<close>, which unranks a combination: of the two permutations of
  \<open>{1, 2}\<close>, the first, \<open>(1, 2)\<close>, has no successor, and the successor of the permutation
  \<open>(1)\<close> is a \<open>Combination\<close> object.
\<close>

theorem Permutation_successor_is_combination_successor:
  "Combinatoric_rank \<lparr>cls = PermutationK, universal_set = {1, 2 :: nat}, combinatoric = TupleP [1, 2]\<rparr>
     = Inr 0 \<and>
   Combinatoric_successor \<lparr>cls = PermutationK, universal_set = {1, 2 :: nat}, combinatoric = TupleP [1, 2]\<rparr>
     = Inr None \<and>
   Combinatoric_successor \<lparr>cls = PermutationK, universal_set = {1, 2 :: nat}, combinatoric = TupleP [1]\<rparr>
     = Inr (Some \<lparr>cls = CombinationK, universal_set = {1, 2}, combinatoric = SetP {2}\<rparr>)"
  by code_simp

text \<open>
  Claim C6. The claim says that \<open>unrank_sized_integer_composition(n, k, index)\<close> returns
  \<open>k\<close> positive integers summing to \<open>n\<close> for every \<open>index\<close> below \<open>C(n - 1, k - 1)\<close>. The
  inner loop stops at \<open>j = n - 2\<close>: for \<open>n = 3\<close>, \<open>k = 2\<close> and \<open>index = 1 < C(2, 1)\<close> no part
  is chosen in the loop and the result is the one-element tuple \<open>(3)\<close>.
\<close>

theorem unrank_sized_integer_composition_short:
  "comb (3 - 1) (2 - 1) = Inr 2 \<and>
   unrank_sized_integer_composition 3 2 1 = Inr (Some \<lparr>sic_composition = [3], sic_sum = 3\<rparr>)"
  by code_simp

end
